theory Spec2Isabelle
  imports Main "HOL-Library.Sublist" "HOL-Library.Multiset" "HOL-Library.AList" "HOL-Library.FSet"
begin

section \<open>Python strings\<close>

text \<open>
  A Python \<^verbatim>\<open>str\<close> is a sequence of Unicode code points, and \<^verbatim>\<open>len\<close> counts code points.
  It is modelled as a list of code points (natural numbers); \<open>py\<close> turns an ASCII literal
  into such a list.
\<close>

type_synonym str = "nat list"

definition py :: "string \<Rightarrow> str" where
  "py s = map of_char s"

text \<open>\<^verbatim>\<open>str(n)\<close> and the \<^verbatim>\<open>{n}\<close> of an f-string: the decimal digits of an integer.\<close>

fun str_nat :: "nat \<Rightarrow> str" where
  "str_nat n = (if n < 10 then [48 + n] else str_nat (n div 10) @ [48 + n mod 10])"

declare str_nat.simps [simp del]

definition str_int :: "int \<Rightarrow> str" where
  "str_int i = (if i < 0 then 45 # str_nat (nat (- i)) else str_nat (nat i))"

text \<open>Reading a decimal numeral back (\<^verbatim>\<open>int(s)\<close> on a string of digits).\<close>

definition nat_of_str :: "str \<Rightarrow> nat" where
  "nat_of_str s = foldl (\<lambda>a c. 10 * a + (c - 48)) 0 s"

text \<open>
  \<^verbatim>\<open>str.isspace\<close> for one code point: the code points Python's \<^verbatim>\<open>str.strip()\<close> removes
  (bidirectional class WS, B or S, or category Zs).
\<close>

definition isspace :: "nat \<Rightarrow> bool" where
  "isspace c \<longleftrightarrow>
     (9 \<le> c \<and> c \<le> 13) \<or> (28 \<le> c \<and> c \<le> 32) \<or> c = 133 \<or> c = 160 \<or> c = 5760 \<or>
     (8192 \<le> c \<and> c \<le> 8202) \<or> c = 8232 \<or> c = 8233 \<or> c = 8239 \<or> c = 8287 \<or> c = 12288"

text \<open>\<^verbatim>\<open>s.strip()\<close>: leading and trailing whitespace removed.\<close>

definition strip :: "str \<Rightarrow> str" where
  "strip s = rev (dropWhile isspace (rev (dropWhile isspace s)))"

text \<open>\<^verbatim>\<open>s.replace(c, new)\<close> for a one-character pattern \<open>c\<close>.\<close>

definition replace_char :: "nat \<Rightarrow> str \<Rightarrow> str \<Rightarrow> str" where
  "replace_char c new s = concat (map (\<lambda>x. if x = c then new else [x]) s)"

text \<open>\<^verbatim>\<open>sep.join(xs)\<close>.\<close>

fun join :: "str \<Rightarrow> str list \<Rightarrow> str" where
  "join sep [] = []"
| "join sep [x] = x"
| "join sep (x # y # ys) = x @ sep @ join sep (y # ys)"

section \<open>Errors\<close>

text \<open>
  The exceptions the two scripts raise, or let escape from the libraries they call.
  \<open>KeyError\<close> carries the labels that were not found; \<open>EmptyDataError\<close> is what the CSV
  reader raises on a file with no columns to parse; \<open>DatabaseError\<close> stands for whatever
  the database driver raises.
\<close>

datatype error =
    KeyError "str list"
  | ValueError
  | FileNotFoundError
  | DatabaseError
  | EmptyDataError

section \<open>BatchCSVtoSQL: the bucket sizer\<close>

definition VARCHAR_MAX_THRESHOLD :: int where
  "VARCHAR_MAX_THRESHOLD = 4000"

definition BUCKETS :: "int list" where
  "BUCKETS = [1, 10, 25, 50, 100, 255, 500, 1000, 2000, 4000]"

text \<open>
  The loop \<^verbatim>\<open>for b in BUCKETS: if max_len <= b: return str(b)\<close> of \<^verbatim>\<open>bucket_size\<close>, followed by
  its final \<^verbatim>\<open>return str(VARCHAR_MAX_THRESHOLD)\<close>.
\<close>

fun bucket_scan :: "int \<Rightarrow> int list \<Rightarrow> str" where
  "bucket_scan max_len [] = str_int VARCHAR_MAX_THRESHOLD"
| "bucket_scan max_len (b # bs) =
     (if max_len \<le> b then str_int b else bucket_scan max_len bs)"

definition bucket_size :: "int \<Rightarrow> str" where
  "bucket_size max_len =
     (if max_len \<le> 0 then py ''1''
      else if max_len > VARCHAR_MAX_THRESHOLD then py ''MAX''
      else bucket_scan max_len BUCKETS)"

section \<open>BatchCSVtoSQL: reading a file in chunks\<close>

text \<open>
  What \<^verbatim>\<open>pd.read_csv\<close> decodes from one file: the labels it gives the columns (from the first
  line) and the fields of each data line it keeps (it skips blank lines). Tokenising, quoting
  and character decoding are the library's and are not modelled. A data line with fewer
  fields than the header is filled with \<^verbatim>\<open>NA\<close>. A data line with more fields than the header
  is outside what the frames below describe (the reader takes leading fields as an index,
  or rejects the line), and so is a file with no header: see \<open>regular\<close> below.
\<close>

record csv_file =
  header :: "str list"
  rows :: "str list list"

text \<open>
  A cell of a frame read with \<^verbatim>\<open>dtype="string"\<close>: a string, or \<open>None\<close> for \<^verbatim>\<open>pd.NA\<close>. A series
  is a column of cells; a data frame is a sequence of labelled columns.
\<close>

type_synonym cell = "str option"

type_synonym series = "cell list"

type_synonym dataframe = "(str \<times> series) list"

text \<open>
  The tokens the reader turns into \<^verbatim>\<open>NA\<close> under \<^verbatim>\<open>keep_default_na=True\<close> when no other
  \<^verbatim>\<open>na_values\<close> are given, as the library documents them; the empty field is one of them.
\<close>

definition STR_NA_VALUES :: "str list" where
  "STR_NA_VALUES =
     [[], py ''#N/A'', py ''#N/A N/A'', py ''#NA'', py ''-1.#IND'', py ''-1.#QNAN'',
      py ''-NaN'', py ''-nan'', py ''1.#IND'', py ''1.#QNAN'', py ''<NA>'', py ''N/A'',
      py ''NA'', py ''NULL'', py ''NaN'', py ''None'', py ''n/a'', py ''nan'', py ''null'']"

definition na_filter :: "str \<Rightarrow> cell" where
  "na_filter v = (if v \<in> set STR_NA_VALUES then None else Some v)"

text \<open>The field at position \<open>i\<close> of a data line; a line with too few fields reads as empty there.\<close>

definition field :: "str list \<Rightarrow> nat \<Rightarrow> str" where
  "field r i = (if i < length r then r ! i else [])"

text \<open>The frame holding the given data lines, under the given labels.\<close>

definition frame :: "str list \<Rightarrow> str list list \<Rightarrow> dataframe" where
  "frame hdr rs = map (\<lambda>i. (hdr ! i, map (\<lambda>r. na_filter (field r i)) rs)) [0..<length hdr]"

text \<open>Consecutive pieces of \<open>n\<close> elements, the last one possibly shorter.\<close>

function chunk :: "nat \<Rightarrow> 'a list \<Rightarrow> 'a list list" where
  "chunk n xs = (if n = 0 \<or> xs = [] then [] else take n xs # chunk n (drop n xs))"
  by pat_completeness auto
termination
  by (relation "measure (\<lambda>(n, xs). length xs)") auto

declare chunk.simps [simp del]

text \<open>
  \<^verbatim>\<open>pd.read_csv(path, chunksize=..., dtype="string", keep_default_na=True)\<close>, iterated: the
  frames of the file, in order. A file with a header and no data line yields one frame with
  no rows; a chunk size below one is refused.
\<close>

definition frames :: "nat \<Rightarrow> csv_file \<Rightarrow> dataframe list" where
  "frames chunksize f =
     map (frame (header f)) (if rows f = [] then [[]] else chunk chunksize (rows f))"

definition read_csv :: "nat \<Rightarrow> csv_file \<Rightarrow> error + dataframe list" where
  "read_csv chunksize f = (if chunksize < 1 then Inl ValueError else Inr (frames chunksize f))"

text \<open>\<^verbatim>\<open>df.columns = [c.strip() for c in df.columns]\<close>.\<close>

definition strip_columns :: "dataframe \<Rightarrow> dataframe" where
  "strip_columns df = map (\<lambda>(l, s). (strip l, s)) df"

text \<open>
  \<^verbatim>\<open>s = df[col]\<close> as the profiler uses it: a missing label raises \<^verbatim>\<open>KeyError\<close>; a label that
  several columns carry selects a frame, not a series, whose \<^verbatim>\<open>isna().any()\<close> has no truth
  value (\<^verbatim>\<open>ValueError\<close>).
\<close>

definition getitem :: "dataframe \<Rightarrow> str \<Rightarrow> error + series" where
  "getitem df col =
     (case filter (\<lambda>(l, s). l = col) df of
        [] \<Rightarrow> Inl (KeyError [col])
      | [x] \<Rightarrow> Inr (snd x)
      | _ \<Rightarrow> Inl ValueError)"


section \<open>BatchCSVtoSQL: the streaming profiler\<close>

record colstats =
  max_len :: int
  nullable :: bool

text \<open>
  The dictionary \<^verbatim>\<open>stats\<close>: keys in insertion order. \<open>AList.update\<close> replaces the entry of a
  key in place and appends a new key at the end, as assignment to a Python \<^verbatim>\<open>dict\<close> does.
\<close>

type_synonym stats = "(str \<times> colstats) list"

definition stats_init :: "str list \<Rightarrow> stats" where
  "stats_init columns =
     fold (\<lambda>c. AList.update c \<lparr>max_len = 0, nullable = False\<rparr>) columns []"

text \<open>
  The body of \<^verbatim>\<open>for col in columns\<close> once \<^verbatim>\<open>s = df[col]\<close> is a series: \<^verbatim>\<open>nullable\<close> is set when
  some cell is \<^verbatim>\<open>NA\<close>, and \<^verbatim>\<open>max_len\<close> is raised to the greatest length of
  \<^verbatim>\<open>s.fillna("")\<close>, which is \<open>0\<close> for a series with no cell.
\<close>

definition profile_series :: "stats \<Rightarrow> str \<Rightarrow> series \<Rightarrow> error + stats" where
  "profile_series stats col s =
     (case map_of stats col of
        None \<Rightarrow> Inl (KeyError [col])
      | Some info \<Rightarrow>
          let info1 = (if None \<in> set s then info\<lparr>nullable := True\<rparr> else info);
              lengths = map (\<lambda>v. length (case v of None \<Rightarrow> [] | Some t \<Rightarrow> t)) s;
              m = (if lengths = [] then 0 else int (Max (set lengths)))
          in Inr (AList.update col
                    (if m > max_len info1 then info1\<lparr>max_len := m\<rparr> else info1) stats))"

fun profile_columns :: "dataframe \<Rightarrow> str list \<Rightarrow> stats \<Rightarrow> error + stats" where
  "profile_columns df [] stats = Inr stats"
| "profile_columns df (col # cols) stats =
     (case getitem df col of
        Inl e \<Rightarrow> Inl e
      | Inr s \<Rightarrow>
          (case profile_series stats col s of
             Inl e \<Rightarrow> Inl e
           | Inr stats' \<Rightarrow> profile_columns df cols stats'))"

text \<open>\<^verbatim>\<open>for df in reader\<close>.\<close>

fun profile_chunks :: "dataframe list \<Rightarrow> str list \<Rightarrow> stats \<Rightarrow> error + stats" where
  "profile_chunks [] columns stats = Inr stats"
| "profile_chunks (df # dfs) columns stats =
     (case profile_columns (strip_columns df) columns stats of
        Inl e \<Rightarrow> Inl e
      | Inr stats' \<Rightarrow> profile_chunks dfs columns stats')"

text \<open>\<^verbatim>\<open>for path in files\<close>; \<open>chunksize\<close> is the script's \<^verbatim>\<open>CHUNKSIZE\<close>.\<close>

fun profile_files :: "nat \<Rightarrow> csv_file list \<Rightarrow> str list \<Rightarrow> stats \<Rightarrow> error + stats" where
  "profile_files chunksize [] columns stats = Inr stats"
| "profile_files chunksize (f # fs) columns stats =
     (case read_csv chunksize f of
        Inl e \<Rightarrow> Inl e
      | Inr reader \<Rightarrow>
          (case profile_chunks reader columns stats of
             Inl e \<Rightarrow> Inl e
           | Inr stats' \<Rightarrow> profile_files chunksize fs columns stats'))"

definition profile_max_lengths :: "nat \<Rightarrow> csv_file list \<Rightarrow> str list \<Rightarrow> error + stats" where
  "profile_max_lengths chunksize files columns =
     profile_files chunksize files columns (stats_init columns)"

text \<open>
  The header reader of this script. \<^verbatim>\<open>pd.read_csv(first_csv, nrows=0, ...)\<close> raises
  \<^verbatim>\<open>EmptyDataError\<close> when the first file has no columns to parse; otherwise the labels it
  read are stripped and returned.
\<close>

definition Batch_read_header_columns :: "csv_file \<Rightarrow> error + str list" where
  "Batch_read_header_columns first_csv =
     (if header first_csv = [] then Inl EmptyDataError
      else Inr (map strip (header first_csv)))"

section \<open>BatchCSVtoSQL: the loader\<close>






section \<open>BulkCSVtoSQL: configuration and quoting\<close>

definition FIELDTERMINATOR :: str where
  "FIELDTERMINATOR = py '',''"




definition DEFAULT_VARCHAR_LEN :: int where
  "DEFAULT_VARCHAR_LEN = 4000"




text \<open>\<^verbatim>\<open>SCHEMA\<close> and \<^verbatim>\<open>TABLE\<close> have the same values in both scripts.\<close>

definition SCHEMA :: str where
  "SCHEMA = py ''dbo''"

definition TABLE :: str where
  "TABLE = py ''BigCsvTable''"

text \<open>The newline character, and the single quote (code point 39).\<close>

definition nl :: str where
  "nl = [10]"

definition quote :: str where
  "quote = [39]"

definition qident :: "str \<Rightarrow> str" where
  "qident name = py ''['' @ replace_char 93 (py '']]'') name @ py '']''"


section \<open>BulkCSVtoSQL: the header reader\<close>

text \<open>
  \<^verbatim>\<open>f.readline()\<close> on a file opened in text mode: the first line of the decoded text. A line
  ends at \<^verbatim>\<open>\n\<close>, \<^verbatim>\<open>\r\n\<close> or \<^verbatim>\<open>\r\<close>, and the line is returned with \<^verbatim>\<open>\n\<close> in its place.
\<close>

definition readline :: "str \<Rightarrow> str" where
  "readline content =
     (let line = takeWhile (\<lambda>c. c \<noteq> 10 \<and> c \<noteq> 13) content
      in if length line < length content then line @ nl else line)"

text \<open>\<^verbatim>\<open>s.rstrip(chars)\<close>.\<close>

definition rstrip :: "str \<Rightarrow> str \<Rightarrow> str" where
  "rstrip s chars = rev (dropWhile (\<lambda>c. c \<in> set chars) (rev s))"

text \<open>
  \<^verbatim>\<open>s.split(sep)\<close>: the text is scanned from the left, \<open>cur\<close> holding the current field
  reversed. An empty separator raises \<^verbatim>\<open>ValueError\<close>.
\<close>

function split_from :: "str \<Rightarrow> str \<Rightarrow> str \<Rightarrow> str list" where
  "split_from sep cur s =
     (if s = [] then [rev cur]
      else if sep \<noteq> [] \<and> prefix sep s then rev cur # split_from sep [] (drop (length sep) s)
      else split_from sep (hd s # cur) (tl s))"
  by pat_completeness auto
termination
  by (relation "measure (\<lambda>(sep, cur, s). length s)") auto

declare split_from.simps [simp del]

definition str_split :: "str \<Rightarrow> str \<Rightarrow> error + str list" where
  "str_split s sep = (if sep = [] then Inl ValueError else Inr (split_from sep [] s))"

text \<open>
  \<^verbatim>\<open>read_header_columns\<close> of this script; its argument stands for the decoded text of the
  first file (opened with \<^verbatim>\<open>utf-8-sig\<close> and \<^verbatim>\<open>errors="replace"\<close>, so decoding cannot fail).
\<close>

definition Bulk_read_header_columns :: "str \<Rightarrow> error + str list" where
  "Bulk_read_header_columns content =
     (let line = rstrip (readline content) [13, 10] in
      case str_split line FIELDTERMINATOR of
        Inl e \<Rightarrow> Inl e
      | Inr parts \<Rightarrow>
          let cols = map strip parts in
          if cols = [] \<or> (\<exists>c\<in>set cols. c = []) then Inl ValueError else Inr cols)"

section \<open>BulkCSVtoSQL: the table lifecycle\<close>

text \<open>
  The database cursor: \<open>execute\<close> runs a statement with its parameters on the state of the
  database and returns the new state, or the error the driver raised; \<open>fetchone\<close> is the
  next row of the last result, if there is one.
\<close>

record 'db cursor =
  execute :: "'db \<Rightarrow> str \<Rightarrow> str list \<Rightarrow> error + 'db"
  fetchone :: "'db \<Rightarrow> str list option"



text \<open>
  The loop \<^verbatim>\<open>while f"{col}_{i}" in seen: i += 1\<close>: the first suffix from \<open>i\<close> on that is not
  taken. It ends because \<open>seen\<close> is finite and the names for different \<open>i\<close> differ.
\<close>

function first_free :: "str \<Rightarrow> str fset \<Rightarrow> nat \<Rightarrow> nat" where
  "first_free col seen i =
     (if col @ py ''_'' @ str_nat i |\<in>| seen then first_free col seen (i + 1) else i)"
  by pat_completeness auto
termination
proof (relation "measure (\<lambda>(col, seen, i). card {j. i \<le> j \<and> col @ py ''_'' @ str_nat j |\<in>| seen})")
  show "wf (measure (\<lambda>(col, seen, i). card {j. i \<le> j \<and> col @ py ''_'' @ str_nat j |\<in>| seen}))"
    by simp
next
  fix col :: str and seen :: "str fset" and i :: nat
  assume taken: "col @ py ''_'' @ str_nat i |\<in>| seen"
  let ?name = "\<lambda>j. col @ py ''_'' @ str_nat j"
  let ?S = "\<lambda>k. {j. k \<le> j \<and> ?name j |\<in>| seen}"
  have roundtrip: "nat_of_str (str_nat n) = n" for n
  proof (induction n rule: str_nat.induct)
    case (1 n)
    show ?case
    proof (cases "n < 10")
      case True
      then show ?thesis by (simp add: str_nat.simps [of n] nat_of_str_def)
    next
      case False
      with 1 have "nat_of_str (str_nat (n div 10)) = n div 10" by simp
      with False show ?thesis by (simp add: str_nat.simps [of n] nat_of_str_def)
    qed
  qed
  have "inj ?name"
  proof (rule injI)
    fix a b
    assume "?name a = ?name b"
    then have "nat_of_str (str_nat a) = nat_of_str (str_nat b)" by simp
    then show "a = b" by (simp only: roundtrip)
  qed
  then have "finite (?name -` fset seen)" by (intro finite_vimageI) simp_all
  moreover have "?S i \<subseteq> ?name -` fset seen" by auto
  ultimately have fin: "finite (?S i)" by (rule rev_finite_subset)
  have "i \<in> ?S i" and "i \<notin> ?S (i + 1)" and "?S (i + 1) \<subseteq> ?S i"
    using taken by auto
  then have "?S (i + 1) \<subset> ?S i" by blast
  with fin have "card (?S (i + 1)) < card (?S i)" by (rule psubset_card_mono)
  then show "((col, seen, i + 1), (col, seen, i))
      \<in> measure (\<lambda>(col, seen, i). card {j. i \<le> j \<and> col @ py ''_'' @ str_nat j |\<in>| seen})"
    by simp
qed

declare first_free.simps [simp del]

text \<open>
  The loop \<^verbatim>\<open>for c in columns\<close> of \<^verbatim>\<open>create_table_from_header\<close>, with its two variables
  \<^verbatim>\<open>safe_cols\<close> and \<^verbatim>\<open>seen\<close>.
\<close>

fun dedup_loop :: "str list \<Rightarrow> str list \<Rightarrow> str fset \<Rightarrow> str list" where
  "dedup_loop [] safe_cols seen = safe_cols"
| "dedup_loop (c # cs) safe_cols seen =
     (let col = (if c |\<in>| seen then c @ py ''_'' @ str_nat (first_free c seen 2) else c)
      in dedup_loop cs (safe_cols @ [col]) (finsert col seen))"

definition safe_cols :: "str list \<Rightarrow> str list" where
  "safe_cols columns = dedup_loop columns [] {||}"

text \<open>The column definitions and the statement that \<^verbatim>\<open>create_table_from_header\<close> executes.\<close>

definition col_defs :: "str list \<Rightarrow> str" where
  "col_defs columns =
     join (py '','' @ nl @ py ''  '')
       (map (\<lambda>c. qident c @ py '' VARCHAR('' @ str_int DEFAULT_VARCHAR_LEN @ py '') NULL'')
          (safe_cols columns))"

definition create_table_sql :: "str \<Rightarrow> str \<Rightarrow> str list \<Rightarrow> str" where
  "create_table_sql schema table columns =
     py ''CREATE TABLE '' @ qident schema @ py ''.'' @ qident table @ py '' ('' @ nl @
     py ''  '' @ col_defs columns @ nl @ py '');''"

definition create_table_from_header ::
  "'db cursor \<Rightarrow> 'db \<Rightarrow> str \<Rightarrow> str \<Rightarrow> str list \<Rightarrow> error + 'db" where
  "create_table_from_header cur db schema table columns =
     execute cur db (create_table_sql schema table columns) []"



section \<open>BulkCSVtoSQL: the bulk copy and the main program\<close>





section \<open>BatchCSVtoSQL: the schema generator\<close>

definition escape_ident :: "str \<Rightarrow> str" where
  "escape_ident name = replace_char 93 (py '']]'') name"

text \<open>The line that the loop \<^verbatim>\<open>for col, info in stats.items()\<close> appends for one column.\<close>

definition col_line :: "str \<times> colstats \<Rightarrow> str" where
  "col_line = (\<lambda>(col, info).
     py ''  ['' @ escape_ident col @ py ''] VARCHAR('' @ bucket_size (max_len info) @ py '') '' @
     (if nullable info then py ''NULL'' else py ''NOT NULL''))"

definition generate_create_table_sql :: "stats \<Rightarrow> str" where
  "generate_create_table_sql stats =
     (let cols_block = join (py '','' @ nl) (map col_line stats);
          name = py ''['' @ escape_ident SCHEMA @ py ''].['' @ escape_ident TABLE @ py '']''
      in py ''IF OBJECT_ID(N'' @ quote @ name @ quote @ py '', N'' @ quote @ py ''U'' @ quote @
           py '') IS NOT NULL'' @ nl @
         py ''    DROP TABLE '' @ name @ py '';'' @ nl @
         py ''GO'' @ nl @
         py ''CREATE TABLE '' @ name @ py '' ('' @ nl @
         cols_block @ nl @
         py '');'')"

section \<open>Notions used to state the facts\<close>

text \<open>
  The widths a column can have, ordered with \<open>Unbounded\<close> greatest, and the width that the
  text returned by \<open>bucket_size\<close> denotes inside \<^verbatim>\<open>VARCHAR(...)\<close>.
\<close>

datatype width = Chars nat | Unbounded

fun width_le :: "width \<Rightarrow> width \<Rightarrow> bool" where
  "width_le (Chars a) (Chars b) = (a \<le> b)"
| "width_le (Chars a) Unbounded = True"
| "width_le Unbounded (Chars b) = False"
| "width_le Unbounded Unbounded = True"

definition width_of :: "str \<Rightarrow> width" where
  "width_of s = (if s = py ''MAX'' then Unbounded else Chars (nat_of_str s))"

text \<open>
  What one series contributes to the statistics of its column: the greatest length of its
  cells, with \<^verbatim>\<open>NA\<close> counting as empty, and whether it holds an \<^verbatim>\<open>NA\<close>.
\<close>

definition fillna :: "cell \<Rightarrow> str" where
  "fillna v = (case v of None \<Rightarrow> [] | Some t \<Rightarrow> t)"

definition series_len :: "series \<Rightarrow> int" where
  "series_len s = Max (insert 0 (set (map (\<lambda>v. int (length (fillna v))) s)))"

definition absorb :: "colstats \<Rightarrow> series \<Rightarrow> colstats" where
  "absorb info s =
     \<lparr>max_len = max (max_len info) (series_len s), nullable = (nullable info \<or> None \<in> set s)\<rparr>"

text \<open>
  The series a frame holds under a label (empty when the lookup raises), the statistics
  once a frame has been absorbed for the given columns, and the first error that looking
  the given columns up in a frame raises.
\<close>

definition column :: "dataframe \<Rightarrow> str \<Rightarrow> series" where
  "column df c = (case getitem df c of Inl e \<Rightarrow> [] | Inr s \<Rightarrow> s)"

definition absorb_frame :: "dataframe \<Rightarrow> str list \<Rightarrow> stats \<Rightarrow> stats" where
  "absorb_frame df cols st =
     map (\<lambda>(k, info). (k, if k \<in> set cols then absorb info (column df k) else info)) st"

fun first_error :: "dataframe \<Rightarrow> str list \<Rightarrow> error option" where
  "first_error df [] = None"
| "first_error df (c # cs) =
     (case getitem df c of Inl e \<Rightarrow> Some e | Inr s \<Rightarrow> first_error df cs)"

text \<open>
  The positions of the columns of a header whose stripped label is \<open>c\<close>; the frame of a
  whole file; and the frames of a corpus read at chunk size \<open>n\<close>, in order.
\<close>

definition idxs :: "str list \<Rightarrow> str \<Rightarrow> nat list" where
  "idxs h c = filter (\<lambda>i. strip (h ! i) = c) [0..<length h]"

definition whole :: "csv_file \<Rightarrow> dataframe" where
  "whole f = frame (header f) (rows f)"

definition corpus_frames :: "nat \<Rightarrow> csv_file list \<Rightarrow> dataframe list" where
  "corpus_frames n files = concat (map (frames n) files)"





text \<open>
  A file that the reader parses column by column: it has a header, and every data line has
  at least one field and no more fields than the header.
\<close>

definition regular :: "csv_file \<Rightarrow> bool" where
  "regular f \<longleftrightarrow> header f \<noteq> [] \<and> (\<forall>r\<in>set (rows f). r \<noteq> [] \<and> length r \<le> length (header f))"

text \<open>
  The error that looking the canonical columns up raises in a frame with the given labels,
  if any: \<^verbatim>\<open>KeyError\<close> for the first canonical column that no label carries, or \<^verbatim>\<open>ValueError\<close>
  when a canonical column before it is carried by several labels.
\<close>

fun lookup_error :: "str list \<Rightarrow> str list \<Rightarrow> error option" where
  "lookup_error labels [] = None"
| "lookup_error labels (c # cs) =
     (if c \<notin> set labels then Some (KeyError [c])
      else if 1 < count_list labels c then Some ValueError
      else lookup_error labels cs)"


text \<open>
  The header line of a text, and its fields: the pieces between the field terminators.
\<close>

definition header_line :: "str \<Rightarrow> str" where
  "header_line content = takeWhile (\<lambda>c. c \<noteq> 10 \<and> c \<noteq> 13) content"

definition header_fields :: "str \<Rightarrow> str list" where
  "header_fields content = split_from FIELDTERMINATOR [] (header_line content)"

text \<open>
  The name \<open>X_i\<close>, and the name the loop of \<^verbatim>\<open>create_table_from_header\<close> gives a column
  when the names in \<open>seen\<close> are taken.
\<close>

definition suffixed :: "str \<Rightarrow> nat \<Rightarrow> str" where
  "suffixed c i = c @ py ''_'' @ str_nat i"

definition pick :: "str \<Rightarrow> str fset \<Rightarrow> str" where
  "pick c seen = (if c |\<in>| seen then suffixed c (first_free c seen 2) else c)"




text \<open>Small corpora for the examples.\<close>

definition ex1 :: csv_file where
  "ex1 = \<lparr>header = [py ''Id'', py '' Name''], rows = [[py ''1'', []], [py ''2'', py ''Jon'']]\<rparr>"

definition ex2 :: csv_file where
  "ex2 = \<lparr>header = [py ''Name'', py ''Id''], rows = [[py ''Alexandra'', py ''3'']]\<rparr>"



section \<open>Facts about the string functions\<close>

lemma nat_of_str_str_nat: "nat_of_str (str_nat n) = n"
proof (induction n rule: str_nat.induct)
  case (1 n)
  show ?case
  proof (cases "n < 10")
    case True
    then show ?thesis by (simp add: str_nat.simps [of n] nat_of_str_def)
  next
    case False
    with 1 have "nat_of_str (str_nat (n div 10)) = n div 10" by simp
    with False show ?thesis
      by (simp add: str_nat.simps [of n] nat_of_str_def)
  qed
qed

lemma str_nat_inj: "str_nat m = str_nat n \<Longrightarrow> m = n"
  by (metis nat_of_str_str_nat)

lemma str_nat_digits: "c \<in> set (str_nat n) \<Longrightarrow> 48 \<le> c \<and> c \<le> 57"
proof (induction n rule: str_nat.induct)
  case (1 n)
  show ?case
  proof (cases "n < 10")
    case True
    with "1.prems" show ?thesis by (simp add: str_nat.simps [of n])
  next
    case False
    with "1.prems" have "c \<in> set (str_nat (n div 10)) \<or> c = 48 + n mod 10"
      by (auto simp: str_nat.simps [of n])
    then show ?thesis
    proof
      assume "c \<in> set (str_nat (n div 10))"
      with 1 False show ?thesis by simp
    next
      assume "c = 48 + n mod 10"
      moreover have "n mod 10 < 10" by simp
      ultimately show ?thesis by linarith
    qed
  qed
qed

lemma str_nat_not_MAX: "str_nat n \<noteq> py ''MAX''"
proof
  assume "str_nat n = py ''MAX''"
  then have "77 \<in> set (str_nat n)" by (simp add: py_def)
  then show False using str_nat_digits by fastforce
qed

lemma width_of_str_int: "0 \<le> b \<Longrightarrow> width_of (str_int b) = Chars (nat b)"
  by (simp add: width_of_def str_int_def str_nat_not_MAX nat_of_str_str_nat)

lemma width_of_MAX: "width_of (py ''MAX'') = Unbounded"
  by (simp add: width_of_def)

lemma str_int_1: "str_int 1 = py ''1''"
  by code_simp

section \<open>Facts about the bucket sizer\<close>

lemma bucket_scan_sorted:
  "sorted bs \<Longrightarrow>
   bucket_scan w bs =
     (if \<exists>b\<in>set bs. w \<le> b then str_int (Min {b \<in> set bs. w \<le> b})
      else str_int VARCHAR_MAX_THRESHOLD)"
proof (induction bs)
  case Nil
  show ?case by simp
next
  case (Cons a bs)
  show ?case
  proof (cases "w \<le> a")
    case True
    have "Min {b \<in> set (a # bs). w \<le> b} = a"
    proof (rule Min_eqI)
      show "finite {b \<in> set (a # bs). w \<le> b}" by simp
      show "a \<in> {b \<in> set (a # bs). w \<le> b}" using True by simp
      fix y assume "y \<in> {b \<in> set (a # bs). w \<le> b}"
      with Cons.prems show "a \<le> y" by auto
    qed
    with True show ?thesis by auto
  next
    case False
    then have "{b \<in> set (a # bs). w \<le> b} = {b \<in> set bs. w \<le> b}" by auto
    moreover from Cons have "bucket_scan w bs =
      (if \<exists>b\<in>set bs. w \<le> b then str_int (Min {b \<in> set bs. w \<le> b})
       else str_int VARCHAR_MAX_THRESHOLD)" by simp
    ultimately show ?thesis using False by simp
  qed
qed

lemma sorted_BUCKETS: "sorted BUCKETS"
  by (simp add: BUCKETS_def)

lemma Min_BUCKETS: "Min (set BUCKETS) = 1"
  by (simp add: BUCKETS_def)

lemma bucket_scan_BUCKETS:
  "bucket_scan w BUCKETS =
     (if w \<le> 1 then str_int 1 else if w \<le> 10 then str_int 10
      else if w \<le> 25 then str_int 25 else if w \<le> 50 then str_int 50
      else if w \<le> 100 then str_int 100 else if w \<le> 255 then str_int 255
      else if w \<le> 500 then str_int 500 else if w \<le> 1000 then str_int 1000
      else if w \<le> 2000 then str_int 2000 else if w \<le> 4000 then str_int 4000
      else str_int 4000)"
  by (simp add: BUCKETS_def VARCHAR_MAX_THRESHOLD_def)

lemma bucket_width:
  "width_of (bucket_size w) =
     (if w \<le> 1 then Chars 1 else if w \<le> 10 then Chars 10
      else if w \<le> 25 then Chars 25 else if w \<le> 50 then Chars 50
      else if w \<le> 100 then Chars 100 else if w \<le> 255 then Chars 255
      else if w \<le> 500 then Chars 500 else if w \<le> 1000 then Chars 1000
      else if w \<le> 2000 then Chars 2000 else if w \<le> 4000 then Chars 4000
      else Unbounded)"
proof (cases "w \<le> 0")
  case True
  have "width_of (py ''1'') = Chars 1"
    using width_of_str_int [of 1] by (simp add: str_int_1)
  with True show ?thesis by (simp add: bucket_size_def)
next
  case False
  show ?thesis
  proof (cases "w > 4000")
    case True
    with False show ?thesis
      by (simp add: bucket_size_def VARCHAR_MAX_THRESHOLD_def width_of_MAX)
  next
    case le: False
    with False have "bucket_size w = bucket_scan w BUCKETS"
      by (simp add: bucket_size_def VARCHAR_MAX_THRESHOLD_def)
    then show ?thesis
      using le by (simp add: bucket_scan_BUCKETS width_of_str_int)
  qed
qed

section \<open>Claims about the bucket sizer\<close>

text \<open>
  C2. For every integer width \<open>w\<close> the bucket sizer follows its rules: for \<open>w \<le> 0\<close> it returns
  the smallest configured bucket, which is not zero; for \<open>w\<close> above the threshold it returns
  \<^verbatim>\<open>MAX\<close>; otherwise it returns the smallest bucket of the (ascending) list that is at
  least \<open>w\<close>, and the threshold itself when the list has no such bucket.
\<close>

theorem bucket_size_rules:
  "bucket_size w =
     (if w \<le> 0 then str_int (Min (set BUCKETS))
      else if w > VARCHAR_MAX_THRESHOLD then py ''MAX''
      else if \<exists>b\<in>set BUCKETS. w \<le> b then str_int (Min {b \<in> set BUCKETS. w \<le> b})
      else str_int VARCHAR_MAX_THRESHOLD)
   \<and> sorted BUCKETS \<and> 0 < Min (set BUCKETS)"
proof -
  have "bucket_scan w BUCKETS =
     (if \<exists>b\<in>set BUCKETS. w \<le> b then str_int (Min {b \<in> set BUCKETS. w \<le> b})
      else str_int VARCHAR_MAX_THRESHOLD)"
    using sorted_BUCKETS by (rule bucket_scan_sorted)
  then show ?thesis
    by (simp add: bucket_size_def Min_BUCKETS str_int_1 sorted_BUCKETS)
qed

text \<open>
  C3. The bucket sizer is monotonic: \<open>w1 \<le> w2\<close> implies that the width for \<open>w1\<close> is at most
  the width for \<open>w2\<close>, in the order of widths where \<^verbatim>\<open>MAX\<close> is greatest; and the widths
  for \<open>0\<close> and \<open>-1\<close> are both the smallest bucket.
\<close>

theorem bucket_size_mono:
  "(\<forall>w1 w2. w1 \<le> w2 \<longrightarrow> width_le (width_of (bucket_size w1)) (width_of (bucket_size w2)))
   \<and> bucket_size 0 = str_int (Min (set BUCKETS))
   \<and> bucket_size (- 1) = str_int (Min (set BUCKETS))"
proof -
  have "width_le (width_of (bucket_size w1)) (width_of (bucket_size w2))"
    if "w1 \<le> w2" for w1 w2 :: int
    using that unfolding bucket_width by (simp split: if_splits)
  moreover have "bucket_size 0 = str_int (Min (set BUCKETS))"
    by (simp add: bucket_size_def Min_BUCKETS str_int_1)
  moreover have "bucket_size (- 1) = str_int (Min (set BUCKETS))"
    by (simp add: bucket_size_def Min_BUCKETS str_int_1)
  ultimately show ?thesis by blast
qed

theorem bucket_size_mono_witness:
  "(7 :: int) \<le> 5000
   \<and> width_le (width_of (bucket_size 7)) (width_of (bucket_size 5000))
   \<and> width_of (bucket_size 7) = Chars 10
   \<and> width_of (bucket_size 5000) = Unbounded"
proof -
  have h: "(7 :: int) \<le> 5000" by simp
  from bucket_size_mono h
  have "width_le (width_of (bucket_size 7)) (width_of (bucket_size 5000))" by blast
  then show ?thesis by (simp add: bucket_width)
qed

section \<open>Evaluating the examples\<close>



section \<open>Facts about the streaming profiler\<close>

lemma series_len_code:
  "(if map (\<lambda>v. length (case v of None \<Rightarrow> [] | Some t \<Rightarrow> t)) s = [] then 0
    else int (Max (set (map (\<lambda>v. length (case v of None \<Rightarrow> [] | Some t \<Rightarrow> t)) s)))) = series_len s"
proof (cases "s = []")
  case True
  then show ?thesis by (simp add: series_len_def)
next
  case False
  let ?S = "(\<lambda>v. length (fillna v)) ` set s"
  have fin: "finite ?S" and ne: "?S \<noteq> {}" using False by auto
  have "int (Max ?S) = Max (int ` ?S)"
    using fin ne by (intro mono_Max_commute) (auto simp: mono_def)
  moreover have "Max (insert 0 (int ` ?S)) = max 0 (Max (int ` ?S))"
    using fin ne by simp
  moreover have "0 \<le> Max (int ` ?S)"
    using fin ne by (simp add: Max_ge_iff)
  ultimately have "Max (insert 0 (int ` ?S)) = int (Max ?S)" by simp
  moreover have "set (map (\<lambda>v. int (length (fillna v))) s) = int ` ?S" by auto
  moreover have "map (\<lambda>v. length (case v of None \<Rightarrow> [] | Some t \<Rightarrow> t)) s = map (\<lambda>v. length (fillna v)) s"
    by (simp add: fillna_def)
  ultimately show ?thesis using False by (simp add: series_len_def)
qed

lemma series_len_append: "series_len (s1 @ s2) = max (series_len s1) (series_len s2)"
proof -
  let ?f = "\<lambda>v. int (length (fillna v))"
  have "insert 0 (set (map ?f (s1 @ s2))) = insert 0 (set (map ?f s1)) \<union> insert 0 (set (map ?f s2))"
    by auto
  then show ?thesis
    unfolding series_len_def by (simp only: Max_Un [OF _ _ _ _] finite_insert List.finite_set insert_not_empty not_False_eq_True)
qed

lemma profile_series_absorb:
  assumes "map_of st col = Some info"
  shows "profile_series st col s = Inr (AList.update col (absorb info s) st)"
proof -
  let ?info1 = "if None \<in> set s then info\<lparr>nullable := True\<rparr> else info"
  have "(if series_len s > max_len ?info1 then ?info1\<lparr>max_len := series_len s\<rparr> else ?info1)
          = absorb info s"
    by (cases info) (auto simp: absorb_def max_def)
  then show ?thesis
    unfolding profile_series_def Let_def series_len_code
    using assms by simp
qed

lemma absorb_append: "absorb (absorb info s1) s2 = absorb info (s1 @ s2)"
  by (auto simp: absorb_def series_len_append)

lemma absorb_idem: "absorb (absorb info s) s = absorb info s"
  by (auto simp: absorb_def)

lemma absorb_commute: "absorb (absorb info s1) s2 = absorb (absorb info s2) s1"
  by (auto simp: absorb_def)


lemma update_as_map:
  "distinct (map fst st) \<Longrightarrow> map_of st k = Some x \<Longrightarrow>
   AList.update k (g x) st = map (\<lambda>(k', v'). (k', if k' = k then g v' else v')) st"
proof (induction st)
  case Nil
  then show ?case by simp
next
  case (Cons p ps)
  obtain a b where p: "p = (a, b)" by (cases p)
  show ?case
  proof (cases "a = k")
    case True
    with Cons.prems p have b: "b = x" by simp
    from Cons.prems p True have "k \<notin> fst ` set ps" by simp
    then have "map (\<lambda>(k', v'). (k', if k' = k then g v' else v')) ps = ps"
      by (intro map_idI) (auto simp: image_iff)
    with p True b show ?thesis by simp
  next
    case False
    with Cons p show ?thesis by simp
  qed
qed

lemma absorb_frame_Nil: "absorb_frame df [] st = st"
  by (simp add: absorb_frame_def)

lemma keys_absorb_frame: "map fst (absorb_frame df cols st) = map fst st"
  by (simp add: absorb_frame_def case_prod_unfold comp_def)

lemma profile_columns_closed:
  "distinct (map fst st) \<Longrightarrow> set cols \<subseteq> fst ` set st \<Longrightarrow>
   profile_columns df cols st =
     (case first_error df cols of Some e \<Rightarrow> Inl e | None \<Rightarrow> Inr (absorb_frame df cols st))"
proof (induction cols arbitrary: st)
  case Nil
  show ?case by (simp add: absorb_frame_Nil)
next
  case (Cons c cs)
  show ?case
  proof (cases "getitem df c")
    case (Inl e)
    then show ?thesis by simp
  next
    case (Inr s)
    from Cons.prems obtain info where info: "map_of st c = Some info"
      by (cases "map_of st c") (auto simp: map_of_eq_None_iff)
    let ?st1 = "map (\<lambda>(k', v'). (k', if k' = c then absorb v' s else v')) st"
    have st1: "profile_series st c s = Inr ?st1"
      using profile_series_absorb [OF info, of s]
        update_as_map [OF Cons.prems(1) info, of "\<lambda>v. absorb v s"] by simp
    have keys: "map fst ?st1 = map fst st"
      by (simp add: case_prod_unfold comp_def)
    have "profile_columns df cs ?st1 =
      (case first_error df cs of Some e \<Rightarrow> Inl e | None \<Rightarrow> Inr (absorb_frame df cs ?st1))"
    proof (rule Cons.IH)
      show "distinct (map fst ?st1)" unfolding keys by (rule Cons.prems(1))
      have "fst ` set ?st1 = set (map fst ?st1)" by (simp only: set_map)
      also have "\<dots> = fst ` set st" unfolding keys by (simp only: set_map)
      finally show "set cs \<subseteq> fst ` set ?st1" using Cons.prems(2) by simp
    qed
    moreover have "absorb_frame df cs ?st1 = absorb_frame df (c # cs) st"
      using Inr by (auto simp: absorb_frame_def column_def absorb_idem)
    ultimately show ?thesis using Inr st1 by (simp split: option.splits)
  qed
qed

lemma getitem_frame:
  "getitem (strip_columns (frame h rs)) c =
     (case idxs h c of
        [] \<Rightarrow> Inl (KeyError [c])
      | [i] \<Rightarrow> Inr (map (\<lambda>r. na_filter (field r i)) rs)
      | _ \<Rightarrow> Inl ValueError)"
proof -
  have "filter (\<lambda>(l, s). l = c) (strip_columns (frame h rs)) =
          map (\<lambda>i. (strip (h ! i), map (\<lambda>r. na_filter (field r i)) rs)) (idxs h c)"
    by (simp add: strip_columns_def frame_def idxs_def filter_map comp_def)
  then show ?thesis
    by (simp add: getitem_def split: list.splits)
qed

lemma first_error_frame:
  "first_error (strip_columns (frame h rs)) cols = first_error (strip_columns (frame h [])) cols"
  by (induction cols) (auto simp: getitem_frame split: list.splits)

lemma column_frame_append:
  "column (strip_columns (frame h (rs1 @ rs2))) c =
     column (strip_columns (frame h rs1)) c @ column (strip_columns (frame h rs2)) c"
  by (simp add: column_def getitem_frame split: list.splits)

lemma absorb_frame_append:
  "absorb_frame (strip_columns (frame h rs2)) cols
     (absorb_frame (strip_columns (frame h rs1)) cols st) =
   absorb_frame (strip_columns (frame h (rs1 @ rs2))) cols st"
  by (auto simp: absorb_frame_def column_frame_append absorb_append)


lemma read_csv_frames: "0 < n \<Longrightarrow> read_csv n f = Inr (frames n f)"
  by (simp add: read_csv_def)

lemma profile_columns_keys:
  assumes "distinct (map fst st)" and "set cols \<subseteq> fst ` set st"
    and "profile_columns df cols st = Inr st'"
  shows "map fst st' = map fst st"
proof -
  from assms have "st' = absorb_frame df cols st"
    by (simp add: profile_columns_closed split: option.splits)
  then show ?thesis by (simp add: keys_absorb_frame)
qed

lemma keys_preserved:
  assumes "map fst st' = map fst st" and "distinct (map fst st)" and "set cols \<subseteq> fst ` set st"
  shows "distinct (map fst st') \<and> set cols \<subseteq> fst ` set st'"
proof -
  have "fst ` set st' = set (map fst st')" by (simp only: set_map)
  also have "\<dots> = fst ` set st" unfolding assms(1) by (simp only: set_map)
  finally show ?thesis using assms by simp
qed

lemma profile_chunks_chunk:
  "0 < n \<Longrightarrow> rs \<noteq> [] \<Longrightarrow> distinct (map fst st) \<Longrightarrow> set cols \<subseteq> fst ` set st \<Longrightarrow>
   profile_chunks (map (frame h) (chunk n rs)) cols st =
     profile_columns (strip_columns (frame h rs)) cols st"
proof (induction n rs arbitrary: st rule: chunk.induct)
  case (1 n xs)
  let ?a = "take n xs" and ?b = "drop n xs"
  let ?F = "\<lambda>rs. strip_columns (frame h rs)"
  have ch: "chunk n xs = ?a # chunk n ?b"
    using "1.prems" by (simp add: chunk.simps [of n xs])
  have closed: "profile_columns (?F rs) cols st' =
      (case first_error (?F []) cols of Some e \<Rightarrow> Inl e
       | None \<Rightarrow> Inr (absorb_frame (?F rs) cols st'))"
    if "distinct (map fst st')" and "set cols \<subseteq> fst ` set st'" for rs st'
    using profile_columns_closed [OF that, of "?F rs"] first_error_frame [of h rs cols] by simp
  show ?case
  proof (cases "first_error (?F []) cols")
    case (Some e)
    then show ?thesis using ch closed [OF "1.prems"(3,4)] by simp
  next
    case None
    let ?st1 = "absorb_frame (?F ?a) cols st"
    have k1: "distinct (map fst ?st1) \<and> set cols \<subseteq> fst ` set ?st1"
      using keys_preserved [OF keys_absorb_frame "1.prems"(3,4)] .
    have step: "profile_columns (?F ?a) cols st = Inr ?st1"
      using closed [OF "1.prems"(3,4)] None by simp
    show ?thesis
    proof (cases "?b = []")
      case True
      then have "?a = xs" by simp
      moreover from True have "chunk n ?b = []" by (simp add: chunk.simps [of n "[]"])
      ultimately show ?thesis using ch step by simp
    next
      case False
      have "profile_chunks (map (frame h) (chunk n ?b)) cols ?st1 =
              profile_columns (?F ?b) cols ?st1"
        using "1.prems"(1,2) False k1 by (intro "1.IH") auto
      also have "\<dots> = Inr (absorb_frame (?F ?b) cols ?st1)"
        using closed k1 None by simp
      also have "absorb_frame (?F ?b) cols ?st1 = absorb_frame (?F (?a @ ?b)) cols st"
        by (rule absorb_frame_append)
      finally have "profile_chunks (map (frame h) (chunk n ?b)) cols ?st1 =
          profile_columns (?F xs) cols st"
        using closed [OF "1.prems"(3,4), of xs] None by simp
      then show ?thesis using ch step by simp
    qed
  qed
qed

lemma profile_chunks_frames:
  assumes "0 < n" and "distinct (map fst st)" and "set cols \<subseteq> fst ` set st"
  shows "profile_chunks (frames n f) cols st = profile_columns (strip_columns (whole f)) cols st"
proof (cases "rows f = []")
  case True
  then show ?thesis by (simp add: frames_def whole_def split: sum.splits)
next
  case False
  then show ?thesis
    using profile_chunks_chunk [OF assms(1) False assms(2,3), of "header f"]
    by (simp add: frames_def whole_def)
qed

lemma profile_files_whole:
  "0 < n \<Longrightarrow> distinct (map fst st) \<Longrightarrow> set cols \<subseteq> fst ` set st \<Longrightarrow>
   profile_files n fs cols st = profile_chunks (map whole fs) cols st"
proof (induction fs arbitrary: st)
  case Nil
  show ?case by simp
next
  case (Cons f fs)
  show ?case
  proof (cases "profile_columns (strip_columns (whole f)) cols st")
    case (Inl e)
    then show ?thesis
      using Cons.prems by (simp add: read_csv_frames profile_chunks_frames)
  next
    case (Inr st')
    have "distinct (map fst st') \<and> set cols \<subseteq> fst ` set st'"
      using keys_preserved [OF profile_columns_keys [OF Cons.prems(2,3) Inr] Cons.prems(2,3)] .
    then have "profile_files n fs cols st' = profile_chunks (map whole fs) cols st'"
      using Cons.prems(1) by (intro Cons.IH) auto
    then show ?thesis
      using Cons.prems Inr by (simp add: read_csv_frames profile_chunks_frames)
  qed
qed

lemma keys_fold_update:
  "distinct (map fst acc) \<Longrightarrow>
   distinct (map fst (fold (\<lambda>c. AList.update c v) cols acc)) \<and>
   fst ` set (fold (\<lambda>c. AList.update c v) cols acc) = fst ` set acc \<union> set cols"
  by (induction cols arbitrary: acc) (auto simp: distinct_update dom_update)

lemma keys_stats_init:
  "distinct (map fst (stats_init cols)) \<and> set cols \<subseteq> fst ` set (stats_init cols)"
  using keys_fold_update [of "[]" "\<lparr>max_len = 0, nullable = False\<rparr>" cols]
  by (simp add: stats_init_def)

lemma profile_max_lengths_whole:
  "0 < n \<Longrightarrow>
   profile_max_lengths n files cols = profile_chunks (map whole files) cols (stats_init cols)"
  unfolding profile_max_lengths_def using keys_stats_init [of cols]
  by (intro profile_files_whole) auto

lemma chunk_size_independent:
  "0 < n \<Longrightarrow> 0 < m \<Longrightarrow> profile_max_lengths n files cols = profile_max_lengths m files cols"
  by (simp add: profile_max_lengths_whole)


lemma profile_chunks_append:
  "profile_chunks (xs @ ys) cols st =
     (case profile_chunks xs cols st of Inl e \<Rightarrow> Inl e | Inr st' \<Rightarrow> profile_chunks ys cols st')"
  by (induction xs arbitrary: st) (auto split: sum.splits)

lemma profile_files_corpus:
  "0 < n \<Longrightarrow> profile_files n fs cols st = profile_chunks (corpus_frames n fs) cols st"
  by (induction fs arbitrary: st)
     (auto simp: corpus_frames_def read_csv_frames profile_chunks_append split: sum.splits)

lemma profile_chunks_fold:
  "distinct (map fst st) \<Longrightarrow> set cols \<subseteq> fst ` set st \<Longrightarrow>
   (profile_chunks dfs cols st = Inr p) =
     ((\<forall>df\<in>set dfs. first_error (strip_columns df) cols = None) \<and>
      p = fold (\<lambda>df. absorb_frame (strip_columns df) cols) dfs st)"
proof (induction dfs arbitrary: st)
  case Nil
  show ?case by auto
next
  case (Cons df dfs)
  show ?case
  proof (cases "first_error (strip_columns df) cols")
    case (Some e)
    then show ?thesis
      using Cons.prems by (simp add: profile_columns_closed)
  next
    case None
    let ?st1 = "absorb_frame (strip_columns df) cols st"
    have "distinct (map fst ?st1) \<and> set cols \<subseteq> fst ` set ?st1"
      using keys_preserved [OF keys_absorb_frame Cons.prems] .
    then have "(profile_chunks dfs cols ?st1 = Inr p) =
     ((\<forall>df\<in>set dfs. first_error (strip_columns df) cols = None) \<and>
      p = fold (\<lambda>df. absorb_frame (strip_columns df) cols) dfs ?st1)"
      by (intro Cons.IH) auto
    then show ?thesis
      using Cons.prems None by (simp add: profile_columns_closed)
  qed
qed

lemma absorb_frame_commute:
  "absorb_frame a cols \<circ> absorb_frame b cols = absorb_frame b cols \<circ> absorb_frame a cols"
  by (rule ext) (auto simp: absorb_frame_def absorb_commute)

lemma profile_chunks_permuted:
  assumes "distinct (map fst st)" and "set cols \<subseteq> fst ` set st" and "mset dfs = mset dfs'"
  shows "(profile_chunks dfs cols st = Inr p) = (profile_chunks dfs' cols st = Inr p)"
proof -
  have "fold (\<lambda>df. absorb_frame (strip_columns df) cols) dfs
          = fold (\<lambda>df. absorb_frame (strip_columns df) cols) dfs'"
    using assms(3) by (intro fold_multiset_equiv) (auto simp: absorb_frame_commute)
  moreover have "set dfs = set dfs'" using assms(3) by (rule mset_eq_setD)
  ultimately show ?thesis
    using assms(1,2) by (simp add: profile_chunks_fold)
qed

lemma ex_profile1:
  "profile_max_lengths 1 [ex1, ex2] [py ''Id'', py ''Name''] =
     Inr [(py ''Id'', \<lparr>max_len = 1, nullable = False\<rparr>),
          (py ''Name'', \<lparr>max_len = 9, nullable = True\<rparr>)]"
  by (simp add: profile_max_lengths_def stats_init_def read_csv_def frames_def chunk.simps frame_def
      field_def na_filter_def STR_NA_VALUES_def strip_columns_def strip_def isspace_def
      getitem_def profile_series_def py_def ex1_def ex2_def)

text \<open>
  C1. For every corpus and every chunk size of at least one row the streaming profiler
  produces the same result, and folding the chunks of the corpus in any other order yields
  the same profile: the reduction is a maximum on lengths and a disjunction on nullness.
\<close>

theorem profile_chunk_independent:
  "(0 < n \<longrightarrow> 0 < m \<longrightarrow>
      profile_max_lengths n files cols = profile_max_lengths m files cols)
   \<and> (0 < n \<longrightarrow> mset dfs = mset (corpus_frames n files) \<longrightarrow>
        (profile_chunks dfs cols (stats_init cols) = Inr p)
          = (profile_max_lengths n files cols = Inr p))"
proof (intro conjI impI)
  assume "0 < n" and "0 < m"
  then show "profile_max_lengths n files cols = profile_max_lengths m files cols"
    by (rule chunk_size_independent)
next
  assume n: "0 < n" and m: "mset dfs = mset (corpus_frames n files)"
  from keys_stats_init [of cols]
  have "(profile_chunks dfs cols (stats_init cols) = Inr p)
          = (profile_chunks (corpus_frames n files) cols (stats_init cols) = Inr p)"
    using m by (intro profile_chunks_permuted) auto
  then show "(profile_chunks dfs cols (stats_init cols) = Inr p)
          = (profile_max_lengths n files cols = Inr p)"
    using n by (simp add: profile_max_lengths_def profile_files_corpus)
qed

theorem profile_chunk_independent_witness:
  "(0 :: nat) < 1 \<and> (0 :: nat) < 2
   \<and> profile_max_lengths 2 [ex1, ex2] [py ''Id'', py ''Name''] =
       Inr [(py ''Id'', \<lparr>max_len = 1, nullable = False\<rparr>),
            (py ''Name'', \<lparr>max_len = 9, nullable = True\<rparr>)]
   \<and> profile_chunks (rev (corpus_frames 1 [ex1, ex2])) [py ''Id'', py ''Name'']
         (stats_init [py ''Id'', py ''Name'']) =
       Inr [(py ''Id'', \<lparr>max_len = 1, nullable = False\<rparr>),
            (py ''Name'', \<lparr>max_len = 9, nullable = True\<rparr>)]"
proof -
  have a: "(0 :: nat) < 1" and b: "(0 :: nat) < 2" by simp_all
  have c: "mset (rev (corpus_frames 1 [ex1, ex2])) = mset (corpus_frames 1 [ex1, ex2])"
    by simp
  note t = profile_chunk_independent [of 1 2 "[ex1, ex2]" "[py ''Id'', py ''Name'']"
      "rev (corpus_frames 1 [ex1, ex2])"
      "[(py ''Id'', \<lparr>max_len = 1, nullable = False\<rparr>), (py ''Name'', \<lparr>max_len = 9, nullable = True\<rparr>)]"]
  from t a b have "profile_max_lengths 1 [ex1, ex2] [py ''Id'', py ''Name''] =
      profile_max_lengths 2 [ex1, ex2] [py ''Id'', py ''Name'']" by blast
  moreover from t a c have "(profile_chunks (rev (corpus_frames 1 [ex1, ex2])) [py ''Id'', py ''Name'']
         (stats_init [py ''Id'', py ''Name'']) =
       Inr [(py ''Id'', \<lparr>max_len = 1, nullable = False\<rparr>),
            (py ''Name'', \<lparr>max_len = 9, nullable = True\<rparr>)])
     = (profile_max_lengths 1 [ex1, ex2] [py ''Id'', py ''Name''] =
       Inr [(py ''Id'', \<lparr>max_len = 1, nullable = False\<rparr>),
            (py ''Name'', \<lparr>max_len = 9, nullable = True\<rparr>)])" by blast
  ultimately show ?thesis using ex_profile1 by simp
qed

section \<open>What the profile records for each value\<close>
















section \<open>Facts about column alignment and the loader\<close>




lemma labels_frame: "map fst (strip_columns (frame h rs)) = map strip h"
proof -
  have "map fst (strip_columns (frame h rs)) = map (\<lambda>i. strip (h ! i)) [0..<length h]"
    by (simp add: strip_columns_def frame_def comp_def)
  also have "\<dots> = map strip (map (\<lambda>i. h ! i) [0..<length h])" by (simp add: comp_def)
  also have "\<dots> = map strip h" by (simp only: map_nth)
  finally show ?thesis .
qed




















lemma frames_labels:
  "df \<in> set (frames n f) \<Longrightarrow> map fst (strip_columns df) = map strip (header f)"
  by (auto simp: frames_def labels_frame)









section \<open>Facts about the header readers\<close>

lemma dropWhile_none: "(\<And>x. x \<in> set xs \<Longrightarrow> \<not> P x) \<Longrightarrow> dropWhile P xs = xs"
  by (cases xs) auto

lemma rstrip_readline: "rstrip (readline content) [13, 10] = header_line content"
proof -
  let ?line = "takeWhile (\<lambda>c. c \<noteq> 10 \<and> c \<noteq> 13) content"
  have no: "\<not> (x = 13 \<or> x = 10)" if "x \<in> set (rev ?line)" for x
    using that by (auto dest: set_takeWhileD)
  have d: "dropWhile (\<lambda>c. c = 13 \<or> c = 10) (rev ?line) = rev ?line"
    using no by (rule dropWhile_none)
  show ?thesis
    by (simp add: rstrip_def readline_def header_line_def Let_def nl_def d)
qed

lemma split_from_nonempty: "split_from sep cur s \<noteq> []"
proof (induction sep cur s rule: split_from.induct)
  case (1 sep cur s)
  then show ?case by (subst split_from.simps) auto
qed

lemma join_Cons: "xs \<noteq> [] \<Longrightarrow> join sep (x # xs) = x @ sep @ join sep xs"
  by (cases xs) simp_all

lemma split_from_char_step:
  "split_from [x] cur (c # s) =
     (if c = x then rev cur # split_from [x] [] s else split_from [x] (c # cur) s)"
  by (subst split_from.simps) simp

lemma split_from_Nil: "split_from sep cur [] = [rev cur]"
  by (subst split_from.simps) simp

lemma join_split_from: "join [x] (split_from [x] cur s) = rev cur @ s"
  by (induction s arbitrary: cur)
     (simp_all add: split_from_Nil split_from_char_step join_Cons split_from_nonempty)

lemma split_from_no_sep:
  "x \<notin> set cur \<Longrightarrow> f \<in> set (split_from [x] cur s) \<Longrightarrow> x \<notin> set f"
proof (induction s arbitrary: cur)
  case Nil
  then show ?case by (auto simp: split_from_Nil)
next
  case (Cons c s)
  show ?case
  proof (cases "c = x")
    case True
    with Cons.prems(2) have "f = rev cur \<or> f \<in> set (split_from [x] [] s)"
      by (simp add: split_from_char_step)
    then show ?thesis
    proof
      assume "f = rev cur"
      with Cons.prems(1) show ?thesis by simp
    next
      assume "f \<in> set (split_from [x] [] s)"
      then show ?thesis using Cons.IH [of "[]"] by simp
    qed
  next
    case False
    with Cons.prems have "x \<notin> set (c # cur)" and "f \<in> set (split_from [x] (c # cur) s)"
      by (simp_all add: split_from_char_step)
    then show ?thesis by (rule Cons.IH)
  qed
qed

lemma Bulk_read_header_columns_eq:
  "Bulk_read_header_columns content =
     (if \<exists>f\<in>set (header_fields content). strip f = [] then Inl ValueError
      else Inr (map strip (header_fields content)))"
proof -
  have cond: "([] \<in> strip ` set fs) = (\<exists>f\<in>set fs. strip f = [])" for fs
    by force
  show ?thesis
    unfolding Bulk_read_header_columns_def Let_def rstrip_readline str_split_def header_fields_def
    by (simp add: FIELDTERMINATOR_def py_def split_from_nonempty cond)
qed

text \<open>
  C7 (as amended). The header reader of the bulk-copy script fails with \<^verbatim>\<open>ValueError\<close> exactly
  when some field of the header line is empty after trimming, and otherwise returns the
  trimmed fields in order; the fields are the pieces of the header line between the field
  terminators, so the split itself cannot fail. The header reader of the profiling script
  fails exactly when the parser finds no columns in the first file (\<^verbatim>\<open>EmptyDataError\<close>);
  otherwise it returns the trimmed labels that the parser read, in order, which are the
  labels every frame of that file carries, and it does not check them for emptiness.
\<close>

theorem header_readers:
  "Bulk_read_header_columns content =
     (if \<exists>f\<in>set (header_fields content). strip f = [] then Inl ValueError
      else Inr (map strip (header_fields content)))
   \<and> header_fields content \<noteq> []
   \<and> join FIELDTERMINATOR (header_fields content) = header_line content
   \<and> (\<forall>f\<in>set (header_fields content). \<forall>c\<in>set FIELDTERMINATOR. c \<notin> set f)
   \<and> (Batch_read_header_columns first_csv = Inl e)
       = (header first_csv = [] \<and> e = EmptyDataError)
   \<and> (Batch_read_header_columns first_csv = Inr cols)
       = (header first_csv \<noteq> [] \<and> cols = map strip (header first_csv))
   \<and> (Batch_read_header_columns first_csv = Inr cols \<longrightarrow>
        (\<forall>df\<in>set (frames n first_csv). map fst (strip_columns df) = cols))"
proof (intro conjI ballI impI)
  show "Bulk_read_header_columns content =
     (if \<exists>f\<in>set (header_fields content). strip f = [] then Inl ValueError
      else Inr (map strip (header_fields content)))"
    by (rule Bulk_read_header_columns_eq)
  show "header_fields content \<noteq> []"
    by (simp add: header_fields_def split_from_nonempty)
  show "join FIELDTERMINATOR (header_fields content) = header_line content"
    by (simp add: header_fields_def FIELDTERMINATOR_def py_def join_split_from)
  show "(Batch_read_header_columns first_csv = Inl e)
       = (header first_csv = [] \<and> e = EmptyDataError)"
    by (auto simp: Batch_read_header_columns_def)
  show "(Batch_read_header_columns first_csv = Inr cols)
       = (header first_csv \<noteq> [] \<and> cols = map strip (header first_csv))"
    by (auto simp: Batch_read_header_columns_def)
next
  fix f c
  assume "f \<in> set (header_fields content)" and "c \<in> set FIELDTERMINATOR"
  then show "c \<notin> set f"
    using split_from_no_sep [of 44 "[]" f "header_line content"]
    by (simp add: header_fields_def FIELDTERMINATOR_def py_def)
next
  fix df
  assume "Batch_read_header_columns first_csv = Inr cols"
    and df: "df \<in> set (frames n first_csv)"
  then have "cols = map strip (header first_csv)"
    by (auto simp: Batch_read_header_columns_def split: if_splits)
  with frames_labels [OF df] show "map fst (strip_columns df) = cols" by simp
qed

lemma ex_fields:
  "header_fields (py ''Id, Name '' @ [13, 10] @ py ''1,Jon'') = [py ''Id'', py '' Name '']"
  by (simp add: header_fields_def header_line_def FIELDTERMINATOR_def py_def
      split_from_Nil split_from_char_step)

theorem header_readers_witness:
  "header_fields (py ''Id, Name '' @ [13, 10] @ py ''1,Jon'') = [py ''Id'', py '' Name '']
   \<and> Bulk_read_header_columns (py ''Id, Name '' @ [13, 10] @ py ''1,Jon'')
       = Inr [py ''Id'', py ''Name'']
   \<and> 44 \<in> set FIELDTERMINATOR \<and> 44 \<notin> set (py '' Name '')
   \<and> Bulk_read_header_columns [] = Inl ValueError
   \<and> Batch_read_header_columns ex1 = Inr [py ''Id'', py ''Name'']
   \<and> map fst (strip_columns (frame (header ex1) (rows ex1))) = [py ''Id'', py ''Name'']
   \<and> Batch_read_header_columns \<lparr>header = [], rows = []\<rparr> = Inl EmptyDataError"
proof -
  let ?content = "py ''Id, Name '' @ [13, 10] @ py ''1,Jon''"
  note t = header_readers [of ?content]
  have m: "py '' Name '' \<in> set (header_fields ?content)" unfolding ex_fields by simp
  from t have "Bulk_read_header_columns ?content =
     (if \<exists>f\<in>set (header_fields ?content). strip f = [] then Inl ValueError
      else Inr (map strip (header_fields ?content)))" by (rule conjunct1)
  then have a: "Bulk_read_header_columns ?content = Inr [py ''Id'', py ''Name'']"
    unfolding ex_fields by (simp add: strip_def isspace_def py_def)
  have c: "44 \<in> set FIELDTERMINATOR" by (simp add: FIELDTERMINATOR_def py_def)
  note t4 = t [THEN conjunct2, THEN conjunct2, THEN conjunct2, THEN conjunct1]
  from t4 m c have d: "44 \<notin> set (py '' Name '')" by blast
  have "header_fields [] = [[]]"
    by (simp add: header_fields_def header_line_def split_from_Nil)
  with header_readers [of "[]", THEN conjunct1]
  have b: "Bulk_read_header_columns [] = Inl ValueError" by (simp add: strip_def)
  note u = header_readers [where first_csv = ex1 and cols = "[py ''Id'', py ''Name'']"
      and n = 2, THEN conjunct2, THEN conjunct2, THEN conjunct2, THEN conjunct2,
      THEN conjunct2]
  have h: "header ex1 \<noteq> [] \<and> [py ''Id'', py ''Name''] = map strip (header ex1)"
    by (simp add: ex1_def strip_def isspace_def py_def)
  from h have r: "Batch_read_header_columns ex1 = Inr [py ''Id'', py ''Name'']"
    by (rule u [THEN conjunct1, THEN iffD2])
  have k: "frame (header ex1) (rows ex1) \<in> set (frames 2 ex1)"
    by (simp add: frames_def ex1_def chunk.simps)
  from u [THEN conjunct2] r k
  have l: "map fst (strip_columns (frame (header ex1) (rows ex1))) =
      [py ''Id'', py ''Name'']" by blast
  note v = header_readers [where first_csv = "\<lparr>header = [], rows = []\<rparr>"
      and e = EmptyDataError, THEN conjunct2, THEN conjunct2, THEN conjunct2,
      THEN conjunct2, THEN conjunct1]
  from v have z: "Batch_read_header_columns \<lparr>header = [], rows = []\<rparr> = Inl EmptyDataError"
    by simp
  from ex_fields a c d b r l z show ?thesis by (intro conjI)
qed

text \<open>
  C7 as first stated fails for the header reader of the profiling script: a label made of
  whitespace is empty after trimming, yet the reader returns it.
\<close>

theorem batch_header_counterexample:
  "Batch_read_header_columns \<lparr>header = [py ''A'', py ''  ''], rows = []\<rparr> = Inr [py ''A'', []]
   \<and> strip (py ''  '') = []"
  by (simp add: Batch_read_header_columns_def strip_def isspace_def py_def)

section \<open>Facts about the deduplication of column names\<close>

lemma first_free_ge: "i \<le> first_free c seen i"
proof (induction c seen i rule: first_free.induct)
  case (1 col seen i)
  show ?case
  proof (cases "col @ py ''_'' @ str_nat i |\<in>| seen")
    case True
    with 1 have "i + 1 \<le> first_free col seen (i + 1)" by simp
    with True show ?thesis by (simp add: first_free.simps [of col seen i])
  next
    case False
    then show ?thesis by (simp add: first_free.simps [of col seen i])
  qed
qed

lemma first_free_free: "suffixed c (first_free c seen i) |\<notin>| seen"
proof (induction c seen i rule: first_free.induct)
  case (1 col seen i)
  show ?case
  proof (cases "col @ py ''_'' @ str_nat i |\<in>| seen")
    case True
    with 1 show ?thesis by (simp add: first_free.simps [of col seen i])
  next
    case False
    then show ?thesis by (simp add: first_free.simps [of col seen i] suffixed_def)
  qed
qed

lemma first_free_least: "i \<le> j \<Longrightarrow> j < first_free c seen i \<Longrightarrow> suffixed c j |\<in>| seen"
proof (induction c seen i rule: first_free.induct)
  case (1 col seen i)
  show ?case
  proof (cases "col @ py ''_'' @ str_nat i |\<in>| seen")
    case True
    show ?thesis
    proof (cases "j = i")
      case True
      with \<open>col @ py ''_'' @ str_nat i |\<in>| seen\<close> show ?thesis by (simp add: suffixed_def)
    next
      case False
      with "1.prems" have "i + 1 \<le> j" by simp
      moreover from "1.prems" True have "j < first_free col seen (i + 1)"
        by (simp add: first_free.simps [of col seen i])
      ultimately show ?thesis using 1 True by simp
    qed
  next
    case False
    with "1.prems" show ?thesis by (simp add: first_free.simps [of col seen i])
  qed
qed

lemma pick_fresh: "pick c seen |\<notin>| seen"
  by (simp add: pick_def first_free_free)

lemma dedup_loop_Cons: "dedup_loop (c # cs) acc seen =
    dedup_loop cs (acc @ [pick c seen]) (finsert (pick c seen) seen)"
  by (simp add: pick_def suffixed_def Let_def)

lemma dedup_loop_append:
  "\<exists>ys. dedup_loop cs acc seen = acc @ ys \<and> length ys = length cs"
proof (induction cs arbitrary: acc seen)
  case Nil
  show ?case by simp
next
  case (Cons c cs)
  from Cons [of "acc @ [pick c seen]" "finsert (pick c seen) seen"]
  obtain ys where "dedup_loop cs (acc @ [pick c seen]) (finsert (pick c seen) seen)
      = (acc @ [pick c seen]) @ ys" and "length ys = length cs" by blast
  then show ?case by (simp only: dedup_loop_Cons) simp
qed

lemma length_dedup_loop: "length (dedup_loop cs acc seen) = length acc + length cs"
  using dedup_loop_append [of cs acc seen] by auto

lemma take_dedup_loop: "take (length acc) (dedup_loop cs acc seen) = acc"
  using dedup_loop_append [of cs acc seen] by auto

lemma distinct_dedup_loop:
  "fset seen = set acc \<Longrightarrow> distinct acc \<Longrightarrow> distinct (dedup_loop cs acc seen)"
proof (induction cs arbitrary: acc seen)
  case Nil
  then show ?case by simp
next
  case (Cons c cs)
  have "pick c seen \<notin> set acc" using pick_fresh [of c seen] Cons.prems(1) by simp
  with Cons.prems have "distinct (acc @ [pick c seen])"
    and "fset (finsert (pick c seen) seen) = set (acc @ [pick c seen])" by simp_all
  then have "distinct (dedup_loop cs (acc @ [pick c seen]) (finsert (pick c seen) seen))"
    using Cons.IH by blast
  then show ?case by (simp only: dedup_loop_Cons)
qed

lemma nth_dedup_loop:
  "fset seen = set acc \<Longrightarrow> k < length cs \<Longrightarrow>
   dedup_loop cs acc seen ! (length acc + k) =
     pick (cs ! k) (fset_of_list (take (length acc + k) (dedup_loop cs acc seen)))"
proof (induction cs arbitrary: acc seen k)
  case Nil
  then show ?case by simp
next
  case (Cons c cs)
  let ?col = "pick c seen"
  let ?r = "dedup_loop cs (acc @ [?col]) (finsert ?col seen)"
  have r: "dedup_loop (c # cs) acc seen = ?r" by (rule dedup_loop_Cons)
  have inv: "fset (finsert ?col seen) = set (acc @ [?col])" using Cons.prems(1) by simp
  show ?case
  proof (cases k)
    case 0
    obtain ys where ys: "?r = (acc @ [?col]) @ ys"
      using dedup_loop_append [of cs "acc @ [?col]" "finsert ?col seen"] by blast
    then have "?r ! length acc = ?col" by (simp add: nth_append)
    moreover from ys have "take (length acc) ?r = acc" by simp
    moreover have "fset_of_list acc = seen"
      using Cons.prems(1) by (metis fset_inverse fset_of_list.abs_eq)
    ultimately show ?thesis using 0 by (simp only: r) simp
  next
    case (Suc k')
    with Cons.prems(2) have "k' < length cs" by simp
    from Cons.IH [OF inv this]
    have "?r ! (length (acc @ [?col]) + k') =
      pick (cs ! k') (fset_of_list (take (length (acc @ [?col]) + k') ?r))" .
    then show ?thesis using Suc by (simp only: r) simp
  qed
qed

lemma dedup_loop_distinct_input:
  "fset seen = set acc \<Longrightarrow> distinct (acc @ cs) \<Longrightarrow> dedup_loop cs acc seen = acc @ cs"
proof (induction cs arbitrary: acc seen)
  case Nil
  then show ?case by simp
next
  case (Cons c cs)
  from Cons.prems have "c |\<notin>| seen" by simp
  then have p: "pick c seen = c" by (simp add: pick_def)
  from Cons.prems have "fset (finsert c seen) = set (acc @ [c])" and "distinct ((acc @ [c]) @ cs)"
    by simp_all
  then have "dedup_loop cs (acc @ [c]) (finsert c seen) = (acc @ [c]) @ cs" by (rule Cons.IH)
  then show ?case by (simp only: dedup_loop_Cons p) simp
qed

lemma ex_dedup: "safe_cols [py ''A'', py ''A'', py ''A''] = [py ''A'', py ''A_2'', py ''A_3'']"
  by (simp add: safe_cols_def first_free.simps str_nat.simps py_def)

text \<open>
  C8 (as amended). The header-only create path deduplicates column names by the first free
  numeric suffix: the output has the length of the header and its names are distinct; a name
  that no earlier output name has taken is kept, so a header of distinct names is returned
  as it is; a name \<open>X\<close> that is taken becomes \<open>X_i\<close> for the least \<open>i \<ge> 2\<close> such that \<open>X_i\<close> is
  not taken; and the header \<open>A, A, A\<close> gives \<open>A, A_2, A_3\<close>.
\<close>

theorem safe_cols_dedup:
  "length (safe_cols cols) = length cols
   \<and> distinct (safe_cols cols)
   \<and> (\<forall>k<length cols.
        if cols ! k \<notin> set (take k (safe_cols cols)) then safe_cols cols ! k = cols ! k
        else \<exists>i\<ge>2. safe_cols cols ! k = cols ! k @ py ''_'' @ str_nat i
               \<and> safe_cols cols ! k \<notin> set (take k (safe_cols cols))
               \<and> (\<forall>j. 2 \<le> j \<and> j < i \<longrightarrow>
                     cols ! k @ py ''_'' @ str_nat j \<in> set (take k (safe_cols cols))))
   \<and> (distinct cols \<longrightarrow> safe_cols cols = cols)
   \<and> safe_cols [py ''A'', py ''A'', py ''A''] = [py ''A'', py ''A_2'', py ''A_3'']"
proof (intro conjI allI impI)
  show "length (safe_cols cols) = length cols"
    by (simp add: safe_cols_def length_dedup_loop)
  show "distinct (safe_cols cols)"
    unfolding safe_cols_def by (rule distinct_dedup_loop) simp_all
  show "safe_cols [py ''A'', py ''A'', py ''A''] = [py ''A'', py ''A_2'', py ''A_3'']"
    by (rule ex_dedup)
next
  assume "distinct cols"
  then show "safe_cols cols = cols"
    using dedup_loop_distinct_input [of "{||}" "[]" cols] by (simp add: safe_cols_def)
next
  fix k
  assume k: "k < length cols"
  let ?taken = "fset_of_list (take k (safe_cols cols))"
  let ?c = "cols ! k"
  have nth: "safe_cols cols ! k = pick ?c ?taken"
    using nth_dedup_loop [of "{||}" "[]" k cols] k by (simp add: safe_cols_def)
  have mem: "x |\<in>| ?taken \<longleftrightarrow> x \<in> set (take k (safe_cols cols))" for x
    by (simp add: fset_of_list.rep_eq)
  show "if ?c \<notin> set (take k (safe_cols cols)) then safe_cols cols ! k = ?c
        else \<exists>i\<ge>2. safe_cols cols ! k = ?c @ py ''_'' @ str_nat i
               \<and> safe_cols cols ! k \<notin> set (take k (safe_cols cols))
               \<and> (\<forall>j. 2 \<le> j \<and> j < i \<longrightarrow>
                     ?c @ py ''_'' @ str_nat j \<in> set (take k (safe_cols cols)))"
  proof (cases "?c \<in> set (take k (safe_cols cols))")
    case False
    then show ?thesis using nth mem by (simp add: pick_def)
  next
    case True
    let ?i = "first_free ?c ?taken 2"
    have "safe_cols cols ! k = ?c @ py ''_'' @ str_nat ?i"
      using True nth mem by (simp add: pick_def suffixed_def)
    moreover have "2 \<le> ?i" by (rule first_free_ge)
    moreover have "safe_cols cols ! k \<notin> set (take k (safe_cols cols))"
      using pick_fresh [of ?c ?taken] nth mem by simp
    moreover have "\<forall>j. 2 \<le> j \<and> j < ?i \<longrightarrow>
        ?c @ py ''_'' @ str_nat j \<in> set (take k (safe_cols cols))"
      using first_free_least [of 2 _ ?c ?taken] mem by (auto simp: suffixed_def)
    ultimately show ?thesis using True by auto
  qed
qed

lemma ex_dedup2:
  "safe_cols [py ''A'', py ''A'', py ''A_2''] = [py ''A'', py ''A_2'', py ''A_2_2'']"
  by (simp add: safe_cols_def first_free.simps str_nat.simps py_def)

theorem safe_cols_dedup_witness:
  "(2 :: nat) < length [py ''A'', py ''A'', py ''A_2'']
   \<and> [py ''A'', py ''A'', py ''A_2''] ! 2
        \<in> set (take 2 (safe_cols [py ''A'', py ''A'', py ''A_2'']))
   \<and> (\<exists>i\<ge>2. safe_cols [py ''A'', py ''A'', py ''A_2''] ! 2 = py ''A_2'' @ py ''_'' @ str_nat i)
   \<and> distinct (safe_cols [py ''A'', py ''A'', py ''A_2''])
   \<and> safe_cols [py ''A'', py ''A'', py ''A_2''] = [py ''A'', py ''A_2'', py ''A_2_2'']"
proof -
  let ?cols = "[py ''A'', py ''A'', py ''A_2'']"
  have k: "(2 :: nat) < length ?cols" by simp
  have m: "?cols ! 2 \<in> set (take 2 (safe_cols ?cols))"
    unfolding ex_dedup2 by (simp add: numeral_2_eq_2)
  note t = safe_cols_dedup [of ?cols]
  from t have d: "distinct (safe_cols ?cols)" by blast
  from t k have "if ?cols ! 2 \<notin> set (take 2 (safe_cols ?cols))
        then safe_cols ?cols ! 2 = ?cols ! 2
        else \<exists>i\<ge>2. safe_cols ?cols ! 2 = ?cols ! 2 @ py ''_'' @ str_nat i
               \<and> safe_cols ?cols ! 2 \<notin> set (take 2 (safe_cols ?cols))
               \<and> (\<forall>j. 2 \<le> j \<and> j < i \<longrightarrow>
                     ?cols ! 2 @ py ''_'' @ str_nat j \<in> set (take 2 (safe_cols ?cols)))"
    by blast
  with m have "\<exists>i\<ge>2. safe_cols ?cols ! 2 = ?cols ! 2 @ py ''_'' @ str_nat i"
    by (simp only: if_not_P not_not) blast
  moreover have "?cols ! 2 = py ''A_2''" by (simp add: numeral_2_eq_2)
  ultimately have e: "\<exists>i\<ge>2. safe_cols ?cols ! 2 = py ''A_2'' @ py ''_'' @ str_nat i"
    by (simp only:)
  from k m e d ex_dedup2 show ?thesis by (intro conjI)
qed

text \<open>
  C8 as first stated fails where a renamed column takes a name that the header holds further
  on: in the header \<open>A, A, A_2\<close> the second column becomes \<open>A_2\<close>, so the third column, the
  first occurrence of \<open>A_2\<close>, becomes \<open>A_2_2\<close>.
\<close>

theorem first_occurrence_counterexample:
  "py ''A_2'' \<notin> set (take 2 [py ''A'', py ''A'', py ''A_2''])
   \<and> safe_cols [py ''A'', py ''A'', py ''A_2''] ! 2 \<noteq> py ''A_2''
   \<and> safe_cols [py ''A'', py ''A'', py ''A_2''] = [py ''A'', py ''A_2'', py ''A_2_2'']"
  unfolding ex_dedup2 by (simp add: py_def numeral_2_eq_2)

section \<open>Facts about the table lifecycle\<close>





lemma str_int_4000: "str_int 4000 = py ''4000''"
  by code_simp

lemma header_line_only:
  "header_line content' = header_line content \<Longrightarrow>
   Bulk_read_header_columns content' = Bulk_read_header_columns content"
  by (simp add: Bulk_read_header_columns_eq header_fields_def)

text \<open>
  C10. On the header-only create path every column is declared \<^verbatim>\<open>VARCHAR(4000) NULL\<close>; the
  columns depend on the header line of the first file alone, not on its data. On the
  profiled path a column that saw no \<^verbatim>\<open>NA\<close> is declared \<^verbatim>\<open>NOT NULL\<close>.
\<close>

theorem header_only_columns:
  "create_table_from_header cur db schema table columns =
     execute cur db
       (py ''CREATE TABLE '' @ qident schema @ py ''.'' @ qident table @ py '' ('' @ nl @
        py ''  '' @
        join (py '','' @ nl @ py ''  '')
          (map (\<lambda>c. qident c @ py '' VARCHAR(4000) NULL'') (safe_cols columns)) @
        nl @ py '');'') []
   \<and> (header_line content' = header_line content \<longrightarrow>
        Bulk_read_header_columns content' = Bulk_read_header_columns content)
   \<and> col_line (c, \<lparr>max_len = m, nullable = False\<rparr>) =
       py ''  ['' @ escape_ident c @ py ''] VARCHAR('' @ bucket_size m @ py '') NOT NULL''"
proof (intro conjI impI)
  have "py '' VARCHAR('' @ str_int DEFAULT_VARCHAR_LEN @ py '') NULL'' = py '' VARCHAR(4000) NULL''"
    by (simp add: DEFAULT_VARCHAR_LEN_def str_int_4000) (simp add: py_def)
  then show "create_table_from_header cur db schema table columns =
     execute cur db
       (py ''CREATE TABLE '' @ qident schema @ py ''.'' @ qident table @ py '' ('' @ nl @
        py ''  '' @
        join (py '','' @ nl @ py ''  '')
          (map (\<lambda>c. qident c @ py '' VARCHAR(4000) NULL'') (safe_cols columns)) @
        nl @ py '');'') []"
    by (simp add: create_table_from_header_def create_table_sql_def col_defs_def)
next
  assume "header_line content' = header_line content"
  then show "Bulk_read_header_columns content' = Bulk_read_header_columns content"
    by (rule header_line_only)
next
  show "col_line (c, \<lparr>max_len = m, nullable = False\<rparr>) =
       py ''  ['' @ escape_ident c @ py ''] VARCHAR('' @ bucket_size m @ py '') NOT NULL''"
    by (simp add: col_line_def py_def)
qed

theorem header_only_columns_witness:
  "header_line (py ''Id,Id'' @ nl @ py ''1,Jon'') = header_line (py ''Id,Id'' @ nl @ py '','')
   \<and> Bulk_read_header_columns (py ''Id,Id'' @ nl @ py ''1,Jon'') = Inr [py ''Id'', py ''Id'']
   \<and> Bulk_read_header_columns (py ''Id,Id'' @ nl @ py '','') = Inr [py ''Id'', py ''Id'']
   \<and> create_table_sql SCHEMA TABLE [py ''Id'', py ''Id''] =
       py ''CREATE TABLE [dbo].[BigCsvTable] ('' @ nl @
       py ''  [Id] VARCHAR(4000) NULL,'' @ nl @
       py ''  [Id_2] VARCHAR(4000) NULL'' @ nl @ py '');''"
proof -
  let ?a = "py ''Id,Id'' @ nl @ py ''1,Jon''" and ?b = "py ''Id,Id'' @ nl @ py '',''"
  have h: "header_line ?a = header_line ?b"
    by (simp add: header_line_def py_def nl_def)
  have a: "Bulk_read_header_columns ?a = Inr [py ''Id'', py ''Id'']"
    by (simp add: Bulk_read_header_columns_eq header_fields_def header_line_def nl_def
        FIELDTERMINATOR_def py_def split_from_Nil split_from_char_step strip_def isspace_def)
  note t = header_only_columns [where content' = ?a and content = ?b, THEN conjunct2,
      THEN conjunct1]
  from t h
  have "Bulk_read_header_columns ?a = Bulk_read_header_columns ?b" by simp
  with a have b: "Bulk_read_header_columns ?b = Inr [py ''Id'', py ''Id'']" by simp
  have "create_table_sql SCHEMA TABLE [py ''Id'', py ''Id''] =
       py ''CREATE TABLE [dbo].[BigCsvTable] ('' @ nl @
       py ''  [Id] VARCHAR(4000) NULL,'' @ nl @
       py ''  [Id_2] VARCHAR(4000) NULL'' @ nl @ py '');''"
    by (simp add: create_table_sql_def col_defs_def safe_cols_def first_free.simps
        str_nat.simps [of 2] qident_def replace_char_def SCHEMA_def TABLE_def
        DEFAULT_VARCHAR_LEN_def str_int_4000 nl_def)
       (simp add: py_def)
  with h a b show ?thesis by simp
qed

end
